theory Spec2Isabelle
  imports Main "HOL-Library.Word"
begin

section \<open>Strings of UTF-16 code units\<close>

text \<open>
  A JavaScript string is a sequence of 16-bit code units. The regular expressions of the
  module carry no \<open>u\<close> flag, so they see the string one code unit at a time, and
  \<open>charCodeAt\<close> reads a code unit as a number: \<open>unat\<close>.
\<close>

type_synonym unit16 = "16 word"
type_synonym jsstring = "unit16 list"

definition js :: "string \<Rightarrow> jsstring" where
  \<comment> \<open>an ASCII literal as a JavaScript string\<close>
  "js s = map (\<lambda>c. of_nat (of_char c)) s"

definition PERCENT :: unit16 where
  "PERCENT = 0x25"

section \<open>The set of valid URL characters\<close>

text \<open>
  \<open>VALID_URL_CHARS\<close> is built by two nested loops over \<open>validRanges\<close>: for each pair
  \<open>[lo, hi]\<close> the inner loop adds \<open>lo\<close>, \<open>lo + 1\<close>, ... while \<open>code <= hi\<close>.
\<close>

definition validRanges :: "(nat \<times> nat) list" where
  "validRanges =
     [(0x21, 0x21), (0x23, 0x3B), (0x3D, 0x3D), (0x3F, 0x5F),
      (0x61, 0x7A), (0x7C, 0x7C), (0x7E, 0x7E)]"

function add_codes :: "nat \<Rightarrow> nat \<Rightarrow> nat set \<Rightarrow> nat set" where
  "add_codes code hi s = (if code \<le> hi then add_codes (Suc code) hi (insert code s) else s)"
  by pat_completeness auto
termination
  by (relation "measure (\<lambda>(code, hi, s). Suc hi - code)") auto

declare add_codes.simps [simp del]

fun add_ranges :: "(nat \<times> nat) list \<Rightarrow> nat set \<Rightarrow> nat set" where
  "add_ranges [] s = s"
| "add_ranges (r # rs) s = add_ranges rs (add_codes (fst r) (snd r) s)"

definition VALID_URL_CHARS :: "nat set" where
  "VALID_URL_CHARS = add_ranges validRanges {}"

definition has :: "nat set \<Rightarrow> nat \<Rightarrow> bool" where
  "has s code = (code \<in> s)"

section \<open>Character classes of the regular expressions\<close>

text \<open>
  \<open>ENCODE_CHARS_REGEXP\<close> negates the class
  \<open>[\x21\x23-\x3B\x3D\x3F-\x5F\x61-\x7A\x7C\x7E]\<close>; its escape part tests
  \<open>[0-9A-Fa-f]\<close>. \<open>UNMATCHED_SURROGATE_PAIR_REGEXP\<close> uses \<open>[\uD800-\uDBFF]\<close> and
  \<open>[\uDC00-\uDFFF]\<close>, and \<open>ASCII_ONLY_REGEXP\<close> the class \<open>[\x00-\x7F]\<close>.
\<close>

definition url_char :: "unit16 \<Rightarrow> bool" where
  "url_char c =
     (let n = unat c in
        n = 0x21 \<or> (0x23 \<le> n \<and> n \<le> 0x3B) \<or> n = 0x3D \<or> (0x3F \<le> n \<and> n \<le> 0x5F)
        \<or> (0x61 \<le> n \<and> n \<le> 0x7A) \<or> n = 0x7C \<or> n = 0x7E)"

definition hex_char :: "unit16 \<Rightarrow> bool" where
  "hex_char c =
     (let n = unat c in
        (0x30 \<le> n \<and> n \<le> 0x39) \<or> (0x41 \<le> n \<and> n \<le> 0x46) \<or> (0x61 \<le> n \<and> n \<le> 0x66))"

definition high_surrogate :: "unit16 \<Rightarrow> bool" where
  "high_surrogate c = (0xD800 \<le> unat c \<and> unat c \<le> 0xDBFF)"

definition low_surrogate :: "unit16 \<Rightarrow> bool" where
  "low_surrogate c = (0xDC00 \<le> unat c \<and> unat c \<le> 0xDFFF)"

definition ascii_char :: "unit16 \<Rightarrow> bool" where
  "ascii_char c = (unat c \<le> 0x7F)"

definition REPLACEMENT :: unit16 where
  "REPLACEMENT = 0xFFFD"

section \<open>Replacing unmatched surrogates\<close>

text \<open>
  \<open>urlStr.replace(UNMATCHED_SURROGATE_PAIR_REGEXP, '$1\uFFFD$2')\<close> with the global
  regular expression
  \<open>(^|[^\uD800-\uDBFF])[\uDC00-\uDFFF]|[\uD800-\uDBFF]([^\uDC00-\uDFFF]|$)\<close>.
  The scan tries the expression at the current position; a match is replaced and the scan
  goes on after the matched text, otherwise the code unit is copied and the scan moves
  one position on. The flag says whether the position is the start of the string, where
  \<open>^\<close> matches. Alternatives are tried left to right:
  \<^item> \<open>^\<close> then a low surrogate: one unit matched, \<open>$1\<close> and \<open>$2\<close> empty;
  \<^item> a unit that is not a high surrogate, then a low surrogate: two units matched,
    \<open>$1\<close> is the first;
  \<^item> a high surrogate, then a unit that is not a low surrogate: two units matched,
    \<open>$2\<close> is the second;
  \<^item> a high surrogate at the end of the string: one unit matched.
\<close>

fun replace_unmatched :: "bool \<Rightarrow> jsstring \<Rightarrow> jsstring" where
  "replace_unmatched start [] = []"
| "replace_unmatched start (c # cs) =
     (if start \<and> low_surrogate c then REPLACEMENT # replace_unmatched False cs
      else if \<not> high_surrogate c \<and> (case cs of [] \<Rightarrow> False | d # ds \<Rightarrow> low_surrogate d)
        then c # REPLACEMENT # replace_unmatched False (tl cs)
      else if high_surrogate c
        then (case cs of
                [] \<Rightarrow> [REPLACEMENT]
              | d # ds \<Rightarrow>
                  if \<not> low_surrogate d then REPLACEMENT # d # replace_unmatched False ds
                  else c # replace_unmatched False cs)
      else c # replace_unmatched False cs)"

section \<open>The built-in encodeURI\<close>

text \<open>
  \<open>encodeURI\<close> is the ECMAScript built-in (abstract operation \<open>Encode\<close>): a code unit
  of the unreserved set \<open>;/?:@&=+$,\<close>, letters, digits, \<open>-_.!~*'()\<close> and \<open>#\<close> is copied;
  otherwise the code point at the position is read (a high surrogate followed by a low
  one is one code point of two units), an unpaired surrogate throws \<open>URIError\<close>, and each
  octet of the code point's UTF-8 encoding is written as \<open>%\<close> and two uppercase
  hexadecimal digits.
\<close>

datatype error = URIError

definition uri_unreserved :: "unit16 \<Rightarrow> bool" where
  "uri_unreserved c =
     (let n = unat c in
        (0x41 \<le> n \<and> n \<le> 0x5A) \<or> (0x61 \<le> n \<and> n \<le> 0x7A) \<or> (0x30 \<le> n \<and> n \<le> 0x39)
        \<or> n \<in> {0x3B, 0x2F, 0x3F, 0x3A, 0x40, 0x26, 0x3D, 0x2B, 0x24, 0x2C}
        \<or> n \<in> {0x2D, 0x5F, 0x2E, 0x21, 0x7E, 0x2A, 0x27, 0x28, 0x29}
        \<or> n = 0x23)"

definition utf8 :: "nat \<Rightarrow> nat list" where
  "utf8 cp =
     (if cp < 0x80 then [cp]
      else if cp < 0x800 then [0xC0 + cp div 0x40, 0x80 + cp mod 0x40]
      else if cp < 0x10000
        then [0xE0 + cp div 0x1000, 0x80 + cp div 0x40 mod 0x40, 0x80 + cp mod 0x40]
      else [0xF0 + cp div 0x40000, 0x80 + cp div 0x1000 mod 0x40,
            0x80 + cp div 0x40 mod 0x40, 0x80 + cp mod 0x40])"

definition hex_digits :: jsstring where
  "hex_digits = js ''0123456789ABCDEF''"

definition percent_octet :: "nat \<Rightarrow> jsstring" where
  "percent_octet b = [PERCENT, hex_digits ! (b div 16), hex_digits ! (b mod 16)]"

definition percent_octets :: "nat list \<Rightarrow> jsstring" where
  "percent_octets bs = concat (map percent_octet bs)"

definition pair_code_point :: "unit16 \<Rightarrow> unit16 \<Rightarrow> nat" where
  "pair_code_point lead trail = (unat lead - 0xD800) * 0x400 + (unat trail - 0xDC00) + 0x10000"

definition prepend :: "jsstring \<Rightarrow> error + jsstring \<Rightarrow> error + jsstring" where
  "prepend xs r = (case r of Inl e \<Rightarrow> Inl e | Inr ys \<Rightarrow> Inr (xs @ ys))"

fun encodeURI :: "jsstring \<Rightarrow> error + jsstring" where
  "encodeURI [] = Inr []"
| "encodeURI (c # cs) =
     (if uri_unreserved c then prepend [c] (encodeURI cs)
      else if low_surrogate c then Inl URIError
      else if high_surrogate c
        then (case cs of
                [] \<Rightarrow> Inl URIError
              | d # ds \<Rightarrow>
                  if low_surrogate d
                    then prepend (percent_octets (utf8 (pair_code_point c d))) (encodeURI ds)
                  else Inl URIError)
      else prepend (percent_octets (utf8 (unat c))) (encodeURI cs))"

section \<open>Encoding the characters that need it\<close>

text \<open>
  \<open>ENCODE_CHARS_REGEXP\<close> is
  \<open>(?:[^\x21\x23-\x3B\x3D\x3F-\x5F\x61-\x7A\x7C\x7E]|%(?:[^0-9A-Fa-f]|[0-9A-Fa-f][^0-9A-Fa-f]|$))+\<close>.
  One round of the group matches, in this order, a unit outside the class; \<open>%\<close> and a
  unit that is not a hexadecimal digit (two units); \<open>%\<close>, a hexadecimal digit and a unit
  that is not one (three units); \<open>%\<close> at the end of the string. The units after \<open>%\<close>
  are part of the match: the group is not a lookahead. \<open>encode_round\<close> is the number
  of units one round of the group matches at the start of its argument, 0 when it does
  not match. \<open>encode_span\<close> repeats the group as \<open>+\<close> does and returns the matched text
  (empty when the group does not match) and what follows it.
\<close>

definition encode_round :: "jsstring \<Rightarrow> nat" where
  "encode_round s =
     (case s of
        [] \<Rightarrow> 0
      | c # cs \<Rightarrow>
          if \<not> url_char c then 1
          else if c = PERCENT
            then (case cs of
                    [] \<Rightarrow> 1
                  | d # ds \<Rightarrow>
                      if \<not> hex_char d then 2
                      else (case ds of
                              [] \<Rightarrow> 0
                            | e # es \<Rightarrow> if \<not> hex_char e then 3 else 0))
          else 0)"

lemma encode_round_le: "encode_round s \<le> length s"
  by (simp add: encode_round_def split: list.split)

function encode_span :: "jsstring \<Rightarrow> jsstring \<times> jsstring" where
  "encode_span s =
     (let n = encode_round s in
        if n = 0 then ([], s)
        else (case encode_span (drop n s) of (m, r) \<Rightarrow> (take n s @ m, r)))"
  by pat_completeness auto
termination
proof (relation "measure length")
  show "wf (measure length)" by simp
next
  fix s n
  assume "n = encode_round s" "n \<noteq> 0"
  then have "0 < n" "n \<le> length s"
    using encode_round_le [of s] by simp_all
  then show "(drop n s, s) \<in> measure length" by simp
qed

declare encode_span.simps [simp del]

lemma encode_span_append: "encode_span s = (m, r) \<Longrightarrow> s = m @ r"
proof (induction s arbitrary: m r rule: encode_span.induct)
  case (1 s)
  show ?case
  proof (cases "encode_round s = 0")
    case True
    with "1.prems" show ?thesis
      by (simp add: encode_span.simps [of s])
  next
    case False
    obtain m' r' where sp: "encode_span (drop (encode_round s) s) = (m', r')"
      by (cases "encode_span (drop (encode_round s) s)")
    from "1.IH" [OF refl False sp] have "drop (encode_round s) s = m' @ r'" .
    moreover from "1.prems" False sp have "m = take (encode_round s) s @ m'" "r = r'"
      by (simp_all add: encode_span.simps [of s])
    ultimately show ?thesis
      by (metis append_assoc append_take_drop_id)
  qed
qed

text \<open>
  \<open>.replace(ENCODE_CHARS_REGEXP, encodeURI)\<close>: every match, found left to right, is
  replaced by \<open>encodeURI\<close> of the matched text; the units between matches are copied. An
  exception of \<open>encodeURI\<close> leaves \<open>replace\<close>.
\<close>

lemma encode_span_rest: "encode_span s = (m, r) \<Longrightarrow> m \<noteq> [] \<Longrightarrow> length r < length s"
  using encode_span_append [of s m r] by (cases m) auto

function replace_encode :: "jsstring \<Rightarrow> error + jsstring" where
  "replace_encode [] = Inr []"
| "replace_encode (c # cs) =
     (case encode_span (c # cs) of
        (m, r) \<Rightarrow>
          if m = [] then prepend [c] (replace_encode cs)
          else (case encodeURI m of
                  Inl e \<Rightarrow> Inl e
                | Inr t \<Rightarrow> prepend t (replace_encode r)))"
  by pat_completeness auto
termination
proof (relation "measure length")
  show "wf (measure length)" by simp
next
  fix c :: unit16 and cs :: jsstring
  show "(cs, c # cs) \<in> measure length" by simp
next
  fix c :: unit16 and cs m r :: jsstring
  assume "(m, r) = encode_span (c # cs)" "m \<noteq> []"
  then have "length r < length (c # cs)"
    using encode_span_rest [of "c # cs" m r] by simp
  then show "(r, c # cs) \<in> measure length" by simp
qed

declare replace_encode.simps [simp del]

section \<open>The cache\<close>

text \<open>
  \<open>URL_CACHE\<close> closes over an object \<open>cache\<close> without prototype, the array \<open>keys\<close>
  and \<open>MAX_SIZE\<close>. Every value stored is a string, so \<open>cache[key] === undefined\<close> says
  that the key is absent.
\<close>

record url_cache =
  cache :: "jsstring \<rightharpoonup> jsstring"
  keys :: "jsstring list"

definition MAX_SIZE :: nat where
  "MAX_SIZE = 100"

definition empty_cache :: url_cache where
  "empty_cache = \<lparr>cache = Map.empty, keys = []\<rparr>"

definition URL_CACHE_get :: "url_cache \<Rightarrow> jsstring \<Rightarrow> jsstring option" where
  "URL_CACHE_get st key = cache st key"

definition shift_delete :: "url_cache \<Rightarrow> url_cache" where
  \<comment> \<open>\<open>delete cache[keys.shift()]\<close>; on an empty array \<open>shift\<close> gives \<open>undefined\<close>,
      which as a property key is the string \<open>undefined\<close>\<close>
  "shift_delete st =
     (case keys st of
        [] \<Rightarrow> st\<lparr>cache := (cache st)(js ''undefined'' := None)\<rparr>
      | k # ks \<Rightarrow> st\<lparr>cache := (cache st)(k := None), keys := ks\<rparr>)"

definition URL_CACHE_set :: "url_cache \<Rightarrow> jsstring \<Rightarrow> jsstring \<Rightarrow> url_cache" where
  "URL_CACHE_set st key val =
     (let st1 =
        (if cache st key = None
           then (let st0 = (if length (keys st) \<ge> MAX_SIZE then shift_delete st else st)
                 in st0\<lparr>keys := keys st0 @ [key]\<rparr>)
         else st)
      in st1\<lparr>cache := (cache st1)(key \<mapsto> val)\<rparr>)"

section \<open>encodeUrl\<close>

fun indexOf :: "jsstring \<Rightarrow> unit16 \<Rightarrow> int" where
  "indexOf [] x = - 1"
| "indexOf (c # cs) x =
     (if c = x then 0 else (let i = indexOf cs x in if i = - 1 then - 1 else i + 1))"

definition ASCII_ONLY :: "jsstring \<Rightarrow> bool" where
  \<comment> \<open>\<open>ASCII_ONLY_REGEXP.test\<close>, the expression \<open>^[\x00-\x7F]*$\<close>\<close>
  "ASCII_ONLY s = list_all ascii_char s"

fun needsEncoding :: "jsstring \<Rightarrow> bool" where
  \<comment> \<open>the loop over \<open>urlStr.charCodeAt(i)\<close>, left at the first unit outside the set\<close>
  "needsEncoding [] = False"
| "needsEncoding (c # cs) =
     (if \<not> has VALID_URL_CHARS (unat c) then True else needsEncoding cs)"

definition fast_path :: "jsstring \<Rightarrow> bool" where
  "fast_path urlStr =
     (ASCII_ONLY urlStr \<and> indexOf urlStr PERCENT = - 1 \<and> \<not> needsEncoding urlStr)"

definition standard_path :: "jsstring \<Rightarrow> error + jsstring" where
  "standard_path urlStr = replace_encode (replace_unmatched True urlStr)"

text \<open>
  \<open>encodeUrl\<close> takes the state of the cache and returns the result, a string or the
  exception thrown, with the state after the call. \<open>String(url)\<close> is the identity on a
  string. An exception leaves the function before anything is stored.
\<close>

definition encodeUrl :: "url_cache \<Rightarrow> jsstring \<Rightarrow> (error + jsstring) \<times> url_cache" where
  "encodeUrl st urlStr =
     (case URL_CACHE_get st urlStr of
        Some cached \<Rightarrow> (Inr cached, st)
      | None \<Rightarrow>
          if fast_path urlStr then (Inr urlStr, URL_CACHE_set st urlStr urlStr)
          else (case standard_path urlStr of
                  Inl e \<Rightarrow> (Inl e, st)
                | Inr result \<Rightarrow>
                    (Inr result,
                     if length urlStr < 200 then URL_CACHE_set st urlStr result else st)))"

text \<open>The state after a sequence of calls, from the empty cache the module starts with.\<close>

definition calls :: "jsstring list \<Rightarrow> url_cache" where
  "calls urls = foldl (\<lambda>st url. snd (encodeUrl st url)) empty_cache urls"

text \<open>The same computation with no cache: fast-path check, then repair and encoding.\<close>

definition encode_uncached :: "jsstring \<Rightarrow> error + jsstring" where
  "encode_uncached urlStr = (if fast_path urlStr then Inr urlStr else standard_path urlStr)"

section \<open>Predicates used in the proofs\<close>

text \<open>
  \<open>escaped\<close> describes what \<open>encodeURI\<close> writes: copied unreserved units and octets
  \<open>%XX\<close>. A string is \<open>stable\<close> when \<open>ENCODE_CHARS_REGEXP\<close> matches at none of its
  positions.
\<close>

inductive escaped :: "jsstring \<Rightarrow> bool" where
  escaped_Nil: "escaped []"
| escaped_copy: "uri_unreserved c \<Longrightarrow> escaped cs \<Longrightarrow> escaped (c # cs)"
| escaped_octet: "hex_char d \<Longrightarrow> hex_char e \<Longrightarrow> escaped cs \<Longrightarrow> escaped (PERCENT # d # e # cs)"

fun stable :: "jsstring \<Rightarrow> bool" where
  "stable [] = True"
| "stable (c # cs) = (encode_round (c # cs) = 0 \<and> stable cs)"

text \<open>
  The cache is well formed when the array \<open>keys\<close> lists the properties of \<open>cache\<close>
  once each and is no longer than \<open>MAX_SIZE\<close>; it is sound when every stored value is
  what the computation without cache returns for its key.
\<close>

definition cache_inv :: "url_cache \<Rightarrow> bool" where
  "cache_inv st =
     (dom (cache st) = set (keys st) \<and> distinct (keys st) \<and> length (keys st) \<le> MAX_SIZE)"

definition cache_sound :: "url_cache \<Rightarrow> bool" where
  "cache_sound st = (\<forall>k v. cache st k = Some v \<longrightarrow> encode_uncached k = Inr v)"

text \<open>Sample inputs: the strings \<open>a\<close>, \<open>aa\<close>, \<open>aaa\<close>, ... take the fast path.\<close>

definition sample_key :: "nat \<Rightarrow> jsstring" where
  "sample_key n = replicate (Suc n) 0x61"

section \<open>The classifier\<close>

lemma add_codes_eq: "add_codes code hi s = s \<union> {code..hi}"
proof (induction code hi s rule: add_codes.induct)
  case (1 code hi s)
  show ?case
  proof (cases "code \<le> hi")
    case True
    have "{code..hi} = insert code {Suc code..hi}"
      using True by auto
    with True "1" show ?thesis
      by (subst add_codes.simps) auto
  next
    case False
    then show ?thesis
      by (subst add_codes.simps) simp
  qed
qed

lemma VALID_URL_CHARS_eq:
  "VALID_URL_CHARS =
     {0x21} \<union> {0x23..0x3B} \<union> {0x3D} \<union> {0x3F..0x5F} \<union> {0x61..0x7A} \<union> {0x7C} \<union> {0x7E}"
  by (simp add: VALID_URL_CHARS_def validRanges_def add_codes_eq)

section \<open>Character classes and the fast path\<close>

lemma url_char_PERCENT: "url_char PERCENT"
  by (simp add: url_char_def PERCENT_def)

lemma hex_char_url_char: "hex_char c \<Longrightarrow> url_char c"
  unfolding hex_char_def url_char_def Let_def by arith

lemma hex_char_not_PERCENT: "hex_char c \<Longrightarrow> c \<noteq> PERCENT"
  by (auto simp add: hex_char_def PERCENT_def)

lemma uri_unreserved_url_char: "uri_unreserved c \<Longrightarrow> url_char c"
  unfolding uri_unreserved_def url_char_def Let_def by auto

lemma uri_unreserved_not_PERCENT: "uri_unreserved c \<Longrightarrow> c \<noteq> PERCENT"
  by (auto simp add: uri_unreserved_def PERCENT_def)

lemma url_char_ascii: "url_char c \<Longrightarrow> ascii_char c"
  unfolding url_char_def ascii_char_def Let_def by arith

lemma url_char_not_surrogate: "url_char c \<Longrightarrow> \<not> high_surrogate c \<and> \<not> low_surrogate c"
  unfolding url_char_def high_surrogate_def low_surrogate_def Let_def by arith

lemma has_url_char: "has VALID_URL_CHARS (unat c) = url_char c"
  by (auto simp add: has_def VALID_URL_CHARS_eq url_char_def Let_def)

lemma needsEncoding_iff: "needsEncoding s = (\<not> list_all url_char s)"
  by (induction s) (simp_all add: has_url_char)

lemma indexOf_ge: "- 1 \<le> indexOf s x"
  by (induction s) (simp_all add: Let_def)

lemma indexOf_absent: "(indexOf s x = - 1) = (x \<notin> set s)"
proof (induction s)
  case Nil
  show ?case by simp
next
  case (Cons c cs)
  have "- 1 \<le> indexOf cs x" by (rule indexOf_ge)
  then have "indexOf cs x + 1 \<noteq> - 1" by arith
  with Cons show ?case by (auto simp add: Let_def)
qed

lemma fast_path_iff: "fast_path s = (list_all url_char s \<and> PERCENT \<notin> set s)"
  by (auto simp add: fast_path_def ASCII_ONLY_def needsEncoding_iff indexOf_absent list_all_iff
      url_char_ascii)

section \<open>What encodeURI writes\<close>

lemma escaped_append: "escaped xs \<Longrightarrow> escaped ys \<Longrightarrow> escaped (xs @ ys)"
  by (induction xs rule: escaped.induct) (auto intro: escaped.intros)

lemma hex_digits_all: "list_all hex_char hex_digits"
  by (simp add: hex_digits_def js_def hex_char_def)

lemma length_hex_digits: "length hex_digits = 16"
  by (simp add: hex_digits_def js_def)

lemma hex_digits_hex_char: "n < 16 \<Longrightarrow> hex_char (hex_digits ! n)"
  using hex_digits_all by (simp add: list_all_length length_hex_digits)

lemma escaped_percent_octet: "b < 256 \<Longrightarrow> escaped (percent_octet b)"
proof -
  assume "b < 256"
  then have "b div 16 < 16" "b mod 16 < 16" by simp_all
  then show ?thesis
    unfolding percent_octet_def
    by (intro escaped_octet escaped_Nil hex_digits_hex_char)
qed

lemma escaped_percent_octets: "list_all (\<lambda>b. b < 256) bs \<Longrightarrow> escaped (percent_octets bs)"
  by (induction bs) (auto simp add: percent_octets_def escaped_Nil escaped_append escaped_percent_octet)

lemma utf8_octets: "cp < 0x110000 \<Longrightarrow> list_all (\<lambda>b. b < 256) (utf8 cp)"
  unfolding utf8_def by (simp; intro conjI impI; arith)

lemma unat_unit16: "unat (c :: unit16) < 0x110000"
proof -
  have "unat c < 2 ^ 16" using unsigned_less [of c] by simp
  then show ?thesis by simp
qed

lemma pair_code_point_bound:
  "high_surrogate c \<Longrightarrow> low_surrogate d \<Longrightarrow> pair_code_point c d < 0x110000"
  unfolding high_surrogate_def low_surrogate_def pair_code_point_def by arith

lemma escaped_prepend:
  "escaped xs \<Longrightarrow> (\<And>t. r = Inr t \<Longrightarrow> escaped t) \<Longrightarrow> prepend xs r = Inr t \<Longrightarrow> escaped t"
  by (cases r) (auto simp add: prepend_def escaped_append)

lemma encodeURI_escaped: "encodeURI s = Inr t \<Longrightarrow> escaped t"
proof (induction s arbitrary: t rule: encodeURI.induct)
  case 1
  then show ?case by (simp add: escaped_Nil)
next
  case (2 c cs)
  show ?case
  proof (cases "uri_unreserved c")
    case True
    with "2.prems" have "prepend [c] (encodeURI cs) = Inr t" by simp
    moreover have "escaped [c]" using True by (simp add: escaped_copy escaped_Nil)
    ultimately show ?thesis using "2.IH"(1) [OF True] by (rule escaped_prepend [rotated 2])
  next
    case False
    note nu = False
    show ?thesis
    proof (cases "low_surrogate c")
      case True
      with nu "2.prems" show ?thesis by simp
    next
      case False
      note nl = False
      show ?thesis
      proof (cases "high_surrogate c")
        case True
        with nu nl "2.prems" obtain d ds where cs: "cs = d # ds" and ld: "low_surrogate d"
          and pre: "prepend (percent_octets (utf8 (pair_code_point c d))) (encodeURI ds) = Inr t"
          by (cases cs) (auto split: if_splits)
        have "escaped (percent_octets (utf8 (pair_code_point c d)))"
          using True ld by (intro escaped_percent_octets utf8_octets pair_code_point_bound)
        then show ?thesis
          using "2.IH"(2) [OF nu nl True cs ld] pre by (rule escaped_prepend)
      next
        case False
        with nu nl "2.prems"
        have pre: "prepend (percent_octets (utf8 (unat c))) (encodeURI cs) = Inr t"
          by simp
        have "escaped (percent_octets (utf8 (unat c)))"
          by (intro escaped_percent_octets utf8_octets unat_unit16)
        then show ?thesis
          using "2.IH"(3) [OF nu nl False] pre by (rule escaped_prepend)
      qed
    qed
  qed
qed

section \<open>The output of the encoder is stable\<close>

lemma encode_round_plain: "url_char c \<Longrightarrow> c \<noteq> PERCENT \<Longrightarrow> encode_round (c # cs) = 0"
  by (simp add: encode_round_def)

lemma encode_round_hex: "hex_char c \<Longrightarrow> encode_round (c # cs) = 0"
  by (simp add: encode_round_plain hex_char_url_char hex_char_not_PERCENT)

lemma encode_round_zero_iff:
  "(encode_round (c # cs) = 0) =
     (url_char c \<and> (c = PERCENT \<longrightarrow>
        (\<exists>d ds. cs = d # ds \<and> hex_char d \<and> (ds = [] \<or> hex_char (hd ds)))))"
  by (auto simp add: encode_round_def split: list.splits)

lemma encode_span_zero: "encode_round s = 0 \<Longrightarrow> encode_span s = ([], s)"
  by (simp add: encode_span.simps [of s])

lemma encode_span_nonzero:
  assumes "encode_round s \<noteq> 0"
  shows "fst (encode_span s) \<noteq> []"
proof -
  obtain m r where "encode_span (drop (encode_round s) s) = (m, r)"
    by (cases "encode_span (drop (encode_round s) s)")
  with assms have "fst (encode_span s) = take (encode_round s) s @ m"
    by (simp add: encode_span.simps [of s])
  moreover have "take (encode_round s) s \<noteq> []"
    using assms encode_round_le [of s] by (cases s) auto
  ultimately show ?thesis by simp
qed

lemma replace_encode_skip:
  "encode_round (c # cs) = 0 \<Longrightarrow> replace_encode (c # cs) = prepend [c] (replace_encode cs)"
  by (simp add: replace_encode.simps encode_span_zero)

lemma stable_replace_encode: "stable s \<Longrightarrow> replace_encode s = Inr s"
  by (induction s) (simp_all add: replace_encode.simps(1) replace_encode_skip prepend_def)

lemma stable_url_chars: "stable s \<Longrightarrow> list_all url_char s"
  by (induction s) (simp_all add: encode_round_zero_iff)

lemma escaped_stable: "escaped xs \<Longrightarrow> stable ys \<Longrightarrow> stable (xs @ ys)"
proof (induction xs rule: escaped.induct)
  case escaped_Nil
  then show ?case by simp
next
  case (escaped_copy c cs)
  then show ?case
    by (simp add: encode_round_plain uri_unreserved_url_char uri_unreserved_not_PERCENT)
next
  case (escaped_octet d e cs)
  then show ?case
    by (simp add: encode_round_hex encode_round_zero_iff url_char_PERCENT)
qed

lemma prepend_Inr: "(prepend xs r = Inr t) = (\<exists>u. r = Inr u \<and> t = xs @ u)"
  by (cases r) (auto simp add: prepend_def)

lemma replace_encode_hex_head:
  "hex_char d \<Longrightarrow> replace_encode (d # ds) = Inr t \<Longrightarrow> \<exists>u. t = d # u \<and> replace_encode ds = Inr u"
  by (auto simp add: replace_encode_skip encode_round_hex prepend_Inr)

lemma replace_encode_stable: "replace_encode s = Inr t \<Longrightarrow> stable t"
proof (induction s arbitrary: t rule: replace_encode.induct)
  case 1
  then show ?case by (simp add: replace_encode.simps(1))
next
  case (2 c cs)
  obtain m r where sp: "encode_span (c # cs) = (m, r)"
    by (cases "encode_span (c # cs)")
  show ?case
  proof (cases "m = []")
    case True
    have z: "encode_round (c # cs) = 0"
      using encode_span_nonzero [of "c # cs"] sp True by auto
    with "2.prems" obtain u where u: "replace_encode cs = Inr u" and t: "t = c # u"
      by (auto simp add: replace_encode_skip prepend_Inr)
    have su: "stable u"
      using "2.IH"(1) [OF sp [symmetric] True u] .
    have "encode_round (c # u) = 0"
    proof (cases "c = PERCENT")
      case False
      with z show ?thesis by (simp add: encode_round_zero_iff)
    next
      case True
      with z obtain d ds where cs: "cs = d # ds" and hd: "hex_char d"
        and ds: "ds = [] \<or> hex_char (hd ds)"
        by (auto simp add: encode_round_zero_iff)
      from replace_encode_hex_head [OF hd u [unfolded cs]]
      obtain v where uv: "u = d # v" and v: "replace_encode ds = Inr v" by blast
      have "v = [] \<or> hex_char (hd v)"
      proof (cases ds)
        case Nil
        with v show ?thesis by (simp add: replace_encode.simps(1))
      next
        case (Cons e es)
        with ds have "hex_char e" by simp
        from replace_encode_hex_head [OF this v [unfolded Cons]] Cons ds
        show ?thesis by auto
      qed
      with z hd uv show ?thesis
        by (auto simp add: encode_round_zero_iff)
    qed
    with su t show ?thesis by simp
  next
    case False
    with "2.prems" sp obtain e u where e: "encodeURI m = Inr e"
      and u: "replace_encode r = Inr u" and t: "t = e @ u"
      by (auto simp add: replace_encode.simps(2) prepend_Inr split: sum.splits)
    have "stable u"
      using "2.IH"(2) [OF sp [symmetric] False e u] .
    with encodeURI_escaped [OF e] t show ?thesis
      by (simp add: escaped_stable)
  qed
qed

lemma replace_unmatched_id: "list_all url_char s \<Longrightarrow> replace_unmatched start s = s"
proof (induction s arbitrary: start)
  case Nil
  show ?case by simp
next
  case (Cons c cs)
  then show ?case
    by (cases cs) (simp_all add: url_char_not_surrogate)
qed

lemma stable_uncached: "stable t \<Longrightarrow> encode_uncached t = Inr t"
  by (simp add: encode_uncached_def standard_path_def replace_unmatched_id stable_url_chars
      stable_replace_encode)

lemma encode_uncached_idem: "encode_uncached s = Inr t \<Longrightarrow> encode_uncached t = Inr t"
proof (cases "fast_path s")
  case True
  assume "encode_uncached s = Inr t"
  with True show ?thesis by (simp add: encode_uncached_def)
next
  case False
  assume "encode_uncached s = Inr t"
  with False have "replace_encode (replace_unmatched True s) = Inr t"
    by (simp add: encode_uncached_def standard_path_def)
  then have "stable t" by (rule replace_encode_stable)
  then show ?thesis by (rule stable_uncached)
qed

lemma encode_uncached_url_chars: "encode_uncached s = Inr t \<Longrightarrow> list_all url_char t"
proof (cases "fast_path s")
  case True
  assume "encode_uncached s = Inr t"
  with True show ?thesis by (simp add: encode_uncached_def fast_path_iff)
next
  case False
  assume "encode_uncached s = Inr t"
  with False have "replace_encode (replace_unmatched True s) = Inr t"
    by (simp add: encode_uncached_def standard_path_def)
  then show ?thesis by (intro stable_url_chars replace_encode_stable)
qed

section \<open>Invariants of the cache\<close>

lemma URL_CACHE_set_present:
  "cache st key \<noteq> None \<Longrightarrow> URL_CACHE_set st key val = st\<lparr>cache := (cache st)(key \<mapsto> val)\<rparr>"
  by (auto simp add: URL_CACHE_set_def)

lemma URL_CACHE_set_room:
  "cache st key = None \<Longrightarrow> length (keys st) < MAX_SIZE \<Longrightarrow>
   URL_CACHE_set st key val = \<lparr>cache = (cache st)(key \<mapsto> val), keys = keys st @ [key]\<rparr>"
  by (simp add: URL_CACHE_set_def)

lemma URL_CACHE_set_full:
  "cache st key = None \<Longrightarrow> MAX_SIZE \<le> length (keys st) \<Longrightarrow> keys st = k # ks \<Longrightarrow>
   URL_CACHE_set st key val = \<lparr>cache = ((cache st)(k := None))(key \<mapsto> val), keys = ks @ [key]\<rparr>"
  by (simp add: URL_CACHE_set_def shift_delete_def)

lemma URL_CACHE_set_cases:
  obtains (present) "cache st key \<noteq> None"
      "URL_CACHE_set st key val = st\<lparr>cache := (cache st)(key \<mapsto> val)\<rparr>"
  | (room) "cache st key = None" "length (keys st) < MAX_SIZE"
      "URL_CACHE_set st key val = \<lparr>cache = (cache st)(key \<mapsto> val), keys = keys st @ [key]\<rparr>"
  | (full) k ks where "cache st key = None" "MAX_SIZE \<le> length (keys st)" "keys st = k # ks"
      "URL_CACHE_set st key val =
         \<lparr>cache = ((cache st)(k := None))(key \<mapsto> val), keys = ks @ [key]\<rparr>"
proof (cases "cache st key = None")
  case False
  then show ?thesis using present URL_CACHE_set_present by blast
next
  case True
  show ?thesis
  proof (cases "length (keys st) < MAX_SIZE")
    case True
    with \<open>cache st key = None\<close> show ?thesis using room URL_CACHE_set_room by blast
  next
    case False
    then have ge: "MAX_SIZE \<le> length (keys st)" by simp
    then obtain k ks where "keys st = k # ks"
      by (cases "keys st") (simp_all add: MAX_SIZE_def)
    with \<open>cache st key = None\<close> ge show ?thesis using full URL_CACHE_set_full by blast
  qed
qed

lemma URL_CACHE_set_inv: "cache_inv st \<Longrightarrow> cache_inv (URL_CACHE_set st key val)"
proof (cases rule: URL_CACHE_set_cases [of st key val])
  case present
  assume "cache_inv st"
  with present show ?thesis
    by (auto simp add: cache_inv_def)
next
  case room
  assume "cache_inv st"
  with room show ?thesis
    by (auto simp add: cache_inv_def)
next
  case (full k ks)
  assume "cache_inv st"
  with full show ?thesis
    by (auto simp add: cache_inv_def)
qed

lemma URL_CACHE_set_lookup:
  "cache (URL_CACHE_set st key val) k = Some v \<Longrightarrow> (k = key \<and> v = val) \<or> cache st k = Some v"
  by (cases rule: URL_CACHE_set_cases [of st key val]) (auto split: if_splits)

lemma URL_CACHE_set_stored: "cache (URL_CACHE_set st key val) key = Some val"
  by (cases rule: URL_CACHE_set_cases [of st key val]) auto

lemma URL_CACHE_set_sound:
  "cache_sound st \<Longrightarrow> encode_uncached key = Inr val \<Longrightarrow> cache_sound (URL_CACHE_set st key val)"
  unfolding cache_sound_def using URL_CACHE_set_lookup by blast

lemma encodeUrl_inv: "cache_inv st \<Longrightarrow> cache_inv (snd (encodeUrl st url))"
  by (simp add: encodeUrl_def URL_CACHE_get_def URL_CACHE_set_inv split: option.split sum.split)

lemma encodeUrl_sound: "cache_sound st \<Longrightarrow> cache_sound (snd (encodeUrl st url))"
  by (simp add: encodeUrl_def URL_CACHE_get_def URL_CACHE_set_sound encode_uncached_def
      split: option.split sum.split)

lemma encodeUrl_result: "cache_sound st \<Longrightarrow> fst (encodeUrl st url) = encode_uncached url"
proof (cases "cache st url")
  case None
  then show ?thesis
    by (simp add: encodeUrl_def URL_CACHE_get_def encode_uncached_def split: sum.split)
next
  case (Some cached)
  assume "cache_sound st"
  with Some have "encode_uncached url = Inr cached"
    by (simp add: cache_sound_def)
  with Some show ?thesis
    by (simp add: encodeUrl_def URL_CACHE_get_def)
qed

lemma encodeUrl_hit: "cache st url \<noteq> None \<Longrightarrow> snd (encodeUrl st url) = st"
  by (auto simp add: encodeUrl_def URL_CACHE_get_def)

lemma calls_Nil: "calls [] = empty_cache"
  by (simp add: calls_def)

lemma calls_snoc: "calls (urls @ [url]) = snd (encodeUrl (calls urls) url)"
  by (simp add: calls_def)

lemma empty_cache_inv: "cache_inv empty_cache"
  by (simp add: cache_inv_def empty_cache_def)

lemma empty_cache_sound: "cache_sound empty_cache"
  by (simp add: cache_sound_def empty_cache_def)

lemma calls_inv: "cache_inv (calls urls)"
  by (induction urls rule: rev_induct)
     (simp_all add: calls_Nil calls_snoc encodeUrl_inv empty_cache_inv)

lemma calls_sound: "cache_sound (calls urls)"
  by (induction urls rule: rev_induct)
     (simp_all add: calls_Nil calls_snoc encodeUrl_sound empty_cache_sound)

lemma calls_result: "fst (encodeUrl (calls urls) url) = encode_uncached url"
  by (simp add: encodeUrl_result calls_sound)

section \<open>Evaluation and sample states\<close>

lemmas eval_simps =
  js_def PERCENT_def REPLACEMENT_def url_char_def hex_char_def high_surrogate_def
  low_surrogate_def ascii_char_def uri_unreserved_def utf8_def hex_digits_def percent_octet_def
  percent_octets_def pair_code_point_def prepend_def encode_round_def encode_span.simps
  replace_encode.simps ASCII_ONLY_def fast_path_iff standard_path_def encode_uncached_def

lemma encodeUrl_fast_stored:
  assumes "cache_sound st" and "fast_path url"
  shows "cache (snd (encodeUrl st url)) url = Some url"
proof (cases "cache st url")
  case None
  with assms(2) show ?thesis
    by (simp add: encodeUrl_def URL_CACHE_get_def URL_CACHE_set_stored)
next
  case (Some cached)
  with assms(1) have "encode_uncached url = Inr cached"
    unfolding cache_sound_def by blast
  with assms(2) have "cached = url"
    by (simp add: encode_uncached_def)
  with Some show ?thesis
    by (simp add: encodeUrl_def URL_CACHE_get_def)
qed

lemma fast_path_sample_key: "fast_path (sample_key n)"
  by (simp add: sample_key_def fast_path_iff list_all_iff url_char_def PERCENT_def)

lemma sample_key_inj: "(sample_key m = sample_key n) = (m = n)"
proof
  assume "sample_key m = sample_key n"
  then have "length (sample_key m) = length (sample_key n)" by simp
  then show "m = n" by (simp add: sample_key_def)
qed simp

lemma calls_sample_keys:
  "n \<le> MAX_SIZE \<Longrightarrow>
   calls (map sample_key [0..<n]) =
     \<lparr>cache = (\<lambda>k. if k \<in> sample_key ` {..<n} then Some k else None),
      keys = map sample_key [0..<n]\<rparr>"
proof (induction n)
  case 0
  show ?case by (simp add: calls_Nil empty_cache_def)
next
  case (Suc n)
  let ?st = "\<lparr>cache = (\<lambda>k. if k \<in> sample_key ` {..<n} then Some k else None),
      keys = map sample_key [0..<n]\<rparr>"
  from Suc have st: "calls (map sample_key [0..<n]) = ?st" by simp
  have absent: "cache ?st (sample_key n) = None"
    by (auto simp add: sample_key_inj)
  have room: "length (keys ?st) < MAX_SIZE"
    using Suc.prems by simp
  have "calls (map sample_key [0..<Suc n]) = snd (encodeUrl ?st (sample_key n))"
    by (simp add: calls_snoc st)
  also have "\<dots> = URL_CACHE_set ?st (sample_key n) (sample_key n)"
    using absent by (simp add: encodeUrl_def URL_CACHE_get_def fast_path_sample_key)
  also have "\<dots> = \<lparr>cache = (cache ?st)(sample_key n \<mapsto> sample_key n),
      keys = keys ?st @ [sample_key n]\<rparr>"
    using absent room by (rule URL_CACHE_set_room)
  also have "\<dots> = \<lparr>cache = (\<lambda>k. if k \<in> sample_key ` {..<Suc n} then Some k else None),
      keys = map sample_key [0..<Suc n]\<rparr>"
    by (auto simp add: lessThan_Suc fun_eq_iff)
  finally show ?case .
qed

section \<open>The claims\<close>

text \<open>
  C1 (the code throws). The claim says that \<open>encodeUrl\<close> returns a string for every
  string. On the string of two high surrogates \<open>\uD800\uD800\<close> the repair replaces the
  first only, \<open>encodeURI\<close> meets the second and throws \<open>URIError\<close>, after any sequence
  of earlier calls.
\<close>

theorem encodeUrl_throws_URIError:
  "fst (encodeUrl (calls urls) [0xD800, 0xD800]) = Inl URIError"
  by (simp add: calls_result eval_simps)

text \<open>
  C2 (the code leaves the percent sign). The claim says that every \<open>%\<close> that does not
  start a valid escape is encoded as \<open>%25\<close>, also \<open>%\<close> followed by one character at
  the end of the string. \<open>%\<close> followed by a single hexadecimal digit at the end is
  matched by no alternative of \<open>ENCODE_CHARS_REGEXP\<close>: \<open>encodeUrl\<close> returns \<open>%a\<close> for
  \<open>%a\<close> and \<open>http://localhost/%f\<close> for itself.
\<close>

theorem percent_before_last_hex_kept:
  "fst (encodeUrl (calls urls) (js ''%a'')) = Inr (js ''%a'')
   \<and> fst (encodeUrl (calls urls) (js ''http://localhost/%f'')) = Inr (js ''http://localhost/%f'')"
  by (simp add: calls_result eval_simps)

text \<open>
  C3 (the code keeps an unmatched surrogate). The claim says that the repair replaces
  every unmatched surrogate by U+FFFD. The match of an unmatched surrogate takes the
  neighbouring unit with it, and the scan goes on after that unit: of two high
  surrogates in a row the second stays, of two low surrogates at the start the second
  stays, and in high surrogate, \<open>a\<close>, low surrogate the low one stays.
\<close>

theorem unmatched_surrogate_kept:
  "replace_unmatched True [0xD800, 0xD800] = [0xFFFD, 0xD800]
   \<and> replace_unmatched True [0xDC00, 0xDC00] = [0xFFFD, 0xDC00]
   \<and> replace_unmatched True [0xD800, 0x61, 0xDC00] = [0xFFFD, 0x61, 0xDC00]"
  by (simp add: eval_simps)

text \<open>
  C4. After any sequence of calls, \<open>encodeUrl\<close> returns for every input what the
  computation without cache (fast-path check, repair, encoding) returns for it, a string
  or the exception; so a later call with the same input, whatever calls lie between and
  whatever was evicted, returns what the first call returned.
\<close>

theorem cache_transparent:
  "fst (encodeUrl (calls urls) url) = encode_uncached url
   \<and> fst (encodeUrl (calls (urls @ url # others)) url) = fst (encodeUrl (calls urls) url)"
  by (simp add: calls_result)

text \<open>
  C5. After any sequence of calls, an input whose code units are all ASCII (0 to 127),
  none of them \<open>%\<close> (0x25), and all in the set of valid URL characters is returned
  unchanged. The witness is the input
  \<open>http://localhost/foo/bar.html?fizz=buzz#readme\<close>.
\<close>

theorem fast_path_fixed_point:
  assumes "list_all (\<lambda>c. unat c \<le> 127) url"
    and "0x25 \<notin> set url"
    and "list_all (\<lambda>c. has VALID_URL_CHARS (unat c)) url"
  shows "fst (encodeUrl (calls urls) url) = Inr url"
proof -
  from assms(3) have "list_all url_char url"
    by (simp add: has_url_char)
  with assms(2) have "fast_path url"
    by (simp add: fast_path_iff PERCENT_def)
  then show ?thesis
    by (simp add: calls_result encode_uncached_def)
qed

theorem fast_path_fixed_point_witness:
  "list_all (\<lambda>c. unat c \<le> 127) (js ''http://localhost/foo/bar.html?fizz=buzz#readme'')
   \<and> 0x25 \<notin> set (js ''http://localhost/foo/bar.html?fizz=buzz#readme'')
   \<and> list_all (\<lambda>c. has VALID_URL_CHARS (unat c))
         (js ''http://localhost/foo/bar.html?fizz=buzz#readme'')
   \<and> fst (encodeUrl (calls [js ''http://localhost/ foo''])
         (js ''http://localhost/foo/bar.html?fizz=buzz#readme''))
       = Inr (js ''http://localhost/foo/bar.html?fizz=buzz#readme'')"
proof -
  have a: "list_all (\<lambda>c. unat c \<le> 127) (js ''http://localhost/foo/bar.html?fizz=buzz#readme'')"
    by (simp add: js_def)
  have b: "0x25 \<notin> set (js ''http://localhost/foo/bar.html?fizz=buzz#readme'')"
    by (simp add: js_def)
  have c: "list_all (\<lambda>c. has VALID_URL_CHARS (unat c))
      (js ''http://localhost/foo/bar.html?fizz=buzz#readme'')"
    by (simp add: js_def has_url_char url_char_def)
  from a b c fast_path_fixed_point [OF a b c, of "[js ''http://localhost/ foo'']"]
  show ?thesis by blast
qed

text \<open>
  C6 (the code encodes a valid escape and valid characters). The claim says that valid
  characters and valid \<open>%XX\<close> escapes pass through unchanged. The one or two units after
  a \<open>%\<close> that starts no valid escape belong to the match and go through \<open>encodeURI\<close>:
  \<open>%%20\<close> becomes \<open>%25%2520\<close>, the escape \<open>%20\<close> is encoded again, and \<open>%[1]\<close> becomes
  \<open>%25%5B1]\<close>, the valid character \<open>[\<close> is encoded.
\<close>

theorem escape_after_percent_encoded:
  "fst (encodeUrl (calls urls) (js ''%%20'')) = Inr (js ''%25%2520'')
   \<and> fst (encodeUrl (calls urls) (js ''%[1]'')) = Inr (js ''%25%5B1]'')"
  by (simp add: calls_result eval_simps)

text \<open>
  C7 (the fast path stores long inputs). The claim says that after a call the cache
  holds no key of 200 units or more. The fast path stores its input without looking at
  the length: after a call with 200 times the letter \<open>a\<close>, whatever was called before,
  the cache holds that string as a key.
\<close>

theorem long_input_cached:
  "length (replicate 200 (0x61 :: unit16)) = 200
   \<and> cache (calls (urls @ [replicate 200 0x61])) (replicate 200 0x61) = Some (replicate 200 0x61)"
proof -
  have "fast_path (replicate 200 0x61)"
    by (simp add: fast_path_iff list_all_iff url_char_def PERCENT_def)
  then show ?thesis
    by (simp add: calls_snoc encodeUrl_fast_stored calls_sound)
qed

text \<open>
  C8. After any sequence of calls the cache holds at most 100 entries, and \<open>keys\<close> lists
  its keys once each. A key that is not in the cache is put at the back of \<open>keys\<close>; when
  the cache is full, the key at the front, the oldest, is the one removed. A call that
  finds its input in the cache leaves the cache and the order of \<open>keys\<close> as they are.
\<close>

theorem cache_bounded_fifo:
  "card (dom (cache (calls urls))) \<le> 100
   \<and> length (keys (calls urls)) \<le> 100
   \<and> distinct (keys (calls urls))
   \<and> set (keys (calls urls)) = dom (cache (calls urls))
   \<and> (cache (calls urls) key = None \<and> length (keys (calls urls)) < 100 \<longrightarrow>
        keys (URL_CACHE_set (calls urls) key val) = keys (calls urls) @ [key])
   \<and> (cache (calls urls) key = None \<and> length (keys (calls urls)) = 100 \<longrightarrow>
        keys (URL_CACHE_set (calls urls) key val) = tl (keys (calls urls)) @ [key]
        \<and> dom (cache (URL_CACHE_set (calls urls) key val))
            = insert key (dom (cache (calls urls)) - {hd (keys (calls urls))})
        \<and> hd (keys (calls urls)) \<notin> dom (cache (URL_CACHE_set (calls urls) key val)))
   \<and> (cache (calls urls) url \<noteq> None \<longrightarrow>
        snd (encodeUrl (calls urls) url) = calls urls)"
proof -
  let ?st = "calls urls"
  have inv: "dom (cache ?st) = set (keys ?st)" "distinct (keys ?st)" "length (keys ?st) \<le> 100"
    using calls_inv [of urls] by (simp_all add: cache_inv_def MAX_SIZE_def)
  have "card (dom (cache ?st)) = length (keys ?st)"
    using inv(1,2) by (simp add: distinct_card)
  with inv(3) have bound: "card (dom (cache ?st)) \<le> 100" by simp
  have room: "keys (URL_CACHE_set ?st key val) = keys ?st @ [key]"
    if "cache ?st key = None" "length (keys ?st) < 100"
    using that by (simp add: URL_CACHE_set_room MAX_SIZE_def)
  have full: "keys (URL_CACHE_set ?st key val) = tl (keys ?st) @ [key]
      \<and> dom (cache (URL_CACHE_set ?st key val)) = insert key (dom (cache ?st) - {hd (keys ?st)})
      \<and> hd (keys ?st) \<notin> dom (cache (URL_CACHE_set ?st key val))"
    if absent: "cache ?st key = None" and len: "length (keys ?st) = 100"
  proof -
    from len obtain k ks where ks: "keys ?st = k # ks"
      by (cases "keys ?st") simp_all
    from absent inv(1) ks have "k \<noteq> key"
      by (metis domIff list.set_intros(1))
    have "URL_CACHE_set ?st key val =
        \<lparr>cache = ((cache ?st)(k := None))(key \<mapsto> val), keys = ks @ [key]\<rparr>"
      using absent len ks by (intro URL_CACHE_set_full) (simp_all add: MAX_SIZE_def)
    with ks \<open>k \<noteq> key\<close> show ?thesis by auto
  qed
  have hit: "snd (encodeUrl ?st url) = ?st" if "cache ?st url \<noteq> None"
    using that by (rule encodeUrl_hit)
  from inv bound room full hit show ?thesis by blast
qed

theorem cache_bounded_fifo_witness:
  "cache (calls []) (js ''b'') = None \<and> length (keys (calls [])) < 100
   \<and> keys (URL_CACHE_set (calls []) (js ''b'') (js ''b'')) = keys (calls []) @ [js ''b'']
   \<and> cache (calls (map sample_key [0..<100])) (js ''b'') = None
   \<and> length (keys (calls (map sample_key [0..<100]))) = 100
   \<and> keys (URL_CACHE_set (calls (map sample_key [0..<100])) (js ''b'') (js ''b''))
       = tl (keys (calls (map sample_key [0..<100]))) @ [js ''b'']
   \<and> hd (keys (calls (map sample_key [0..<100]))) = js ''a''
   \<and> js ''a'' \<notin> dom (cache (URL_CACHE_set (calls (map sample_key [0..<100])) (js ''b'') (js ''b'')))
   \<and> cache (calls (map sample_key [0..<100])) (js ''a'') \<noteq> None
   \<and> snd (encodeUrl (calls (map sample_key [0..<100])) (js ''a''))
       = calls (map sample_key [0..<100])"
proof -
  have st: "calls (map sample_key [0..<100]) =
      \<lparr>cache = (\<lambda>k. if k \<in> sample_key ` {..<100} then Some k else None),
       keys = map sample_key [0..<100]\<rparr>"
    by (rule calls_sample_keys) (simp add: MAX_SIZE_def)
  have e1: "cache (calls []) (js ''b'') = None" "length (keys (calls [])) < 100"
    by (simp_all add: calls_Nil empty_cache_def)
  have b: "js ''b'' \<notin> sample_key ` {..<100}"
    by (auto simp add: js_def sample_key_def Cons_replicate_eq)
  have a: "js ''a'' = sample_key 0"
    by (simp add: js_def sample_key_def)
  have f1: "cache (calls (map sample_key [0..<100])) (js ''b'') = None"
    using b by (simp add: st)
  have f2: "length (keys (calls (map sample_key [0..<100]))) = 100"
    by (simp add: st)
  have f3: "hd (keys (calls (map sample_key [0..<100]))) = js ''a''"
    by (simp add: st a hd_map hd_upt)
  have f4: "cache (calls (map sample_key [0..<100])) (js ''a'') \<noteq> None"
    by (simp add: st a)
  from e1 f1 f2 f3 f4
    cache_bounded_fifo [of "[]" "js ''b''" "js ''b''" "js ''a''"]
    cache_bounded_fifo [of "map sample_key [0..<100]" "js ''b''" "js ''b''" "js ''a''"]
  show ?thesis by metis
qed

text \<open>
  C9. The classifier \<open>VALID_URL_CHARS.has(code)\<close> answers true exactly for the values
  0x21, 0x23 to 0x3B, 0x3D, 0x3F to 0x5F, 0x61 to 0x7A, 0x7C and 0x7E, for every number
  \<open>code\<close>; these are the code units of the characters
  \<open>! # $ % & ' ( ) * + , - . / 0-9 : ; = ? @ A-Z [ \ ] ^ _ a-z | ~\<close> (the apostrophe is
  0x27 and the backslash 0x5C). The set is a constant of the module: the state that
  \<open>encodeUrl\<close> changes is the cache alone.
\<close>

theorem classifier_correct:
  "has VALID_URL_CHARS code =
     (code = 0x21 \<or> (0x23 \<le> code \<and> code \<le> 0x3B) \<or> code = 0x3D \<or> (0x3F \<le> code \<and> code \<le> 0x5F)
      \<or> (0x61 \<le> code \<and> code \<le> 0x7A) \<or> code = 0x7C \<or> code = 0x7E)"
  by (auto simp add: has_def VALID_URL_CHARS_eq)

text \<open>
  C10. When \<open>encodeUrl\<close> returns a string for an input, \<open>encodeUrl\<close> of that string
  returns it unchanged, in the state the first call leaves and after any other sequence
  of calls; and the string returned consists of valid URL characters only.
\<close>

theorem encode_idempotent:
  assumes "fst (encodeUrl (calls urls) url) = Inr result"
  shows "fst (encodeUrl (snd (encodeUrl (calls urls) url)) result) = Inr result
    \<and> fst (encodeUrl (calls others) result) = Inr result
    \<and> list_all (\<lambda>c. has VALID_URL_CHARS (unat c)) result"
proof -
  from assms have r: "encode_uncached url = Inr result"
    by (simp add: calls_result)
  then have "encode_uncached result = Inr result"
    by (rule encode_uncached_idem)
  moreover from r have "list_all url_char result"
    by (rule encode_uncached_url_chars)
  ultimately show ?thesis
    by (simp add: calls_result calls_snoc [symmetric] has_url_char)
qed

theorem encode_idempotent_witness:
  "fst (encodeUrl (calls []) (js ''http://localhost/ foo'')) = Inr (js ''http://localhost/%20foo'')
   \<and> fst (encodeUrl (snd (encodeUrl (calls []) (js ''http://localhost/ foo'')))
         (js ''http://localhost/%20foo'')) = Inr (js ''http://localhost/%20foo'')
   \<and> fst (encodeUrl (calls [js ''%a'']) (js ''http://localhost/%20foo''))
       = Inr (js ''http://localhost/%20foo'')
   \<and> list_all (\<lambda>c. has VALID_URL_CHARS (unat c)) (js ''http://localhost/%20foo'')"
proof -
  have h: "fst (encodeUrl (calls []) (js ''http://localhost/ foo''))
      = Inr (js ''http://localhost/%20foo'')"
    by (simp add: calls_result eval_simps)
  from h encode_idempotent [OF h, of "[js ''%a'']"] show ?thesis by simp
qed

end
